theory Spec2Isabelle
  imports Main "HOL-Library.Sublist"
begin

section \<open>Strings of the JavaScript runtime\<close>

text \<open>
  A JavaScript string is modelled as a \<^typ>\<open>string\<close>: a list of code units, here restricted
  to the code units below 256. The library methods used by the controllers are written out
  as list functions.
\<close>

definition startsWith :: "string \<Rightarrow> string \<Rightarrow> bool" where
  \<comment> \<open>\<^verbatim>\<open>s.startsWith(p)\<close>\<close>
  "startsWith s p = prefix p s"

definition endsWith :: "string \<Rightarrow> string \<Rightarrow> bool" where
  \<comment> \<open>\<^verbatim>\<open>s.endsWith(p)\<close>, also the regular expression \<^verbatim>\<open>/p$/\<close> for a literal p\<close>
  "endsWith s p = prefix (rev p) (rev s)"

fun includes_str :: "string \<Rightarrow> string \<Rightarrow> bool" where
  \<comment> \<open>\<^verbatim>\<open>s.includes(p)\<close>, also the unanchored regular expression \<^verbatim>\<open>/p/\<close> for a literal p\<close>
  "includes_str [] p = (p = [])"
| "includes_str (c # cs) p = (prefix p (c # cs) \<or> includes_str cs p)"

definition toLowerChar :: "char \<Rightarrow> char" where
  \<comment> \<open>The letters A to Z are mapped to a to z. JavaScript also lowers letters beyond ASCII;
      none of them becomes an ASCII character, and every comparison below is against an
      ASCII literal, so those are left as they are.\<close>
  "toLowerChar c =
     (case map_of (zip ''ABCDEFGHIJKLMNOPQRSTUVWXYZ'' ''abcdefghijklmnopqrstuvwxyz'') c of
        Some d \<Rightarrow> d
      | None \<Rightarrow> c)"

definition toLowerCase :: "string \<Rightarrow> string" where
  "toLowerCase s = map toLowerChar s"

definition isSpace :: "char \<Rightarrow> bool" where
  \<comment> \<open>The class \<^verbatim>\<open>\s\<close> and the characters removed by \<^verbatim>\<open>trim()\<close>, below 256:
      tab, line feed, vertical tab, form feed, carriage return, space, no-break space.\<close>
  "isSpace c = (c \<in> set [CHR 0x09, CHR 0x0A, CHR 0x0B, CHR 0x0C, CHR 0x0D, CHR '' '', CHR 0xA0])"

definition trimStart :: "string \<Rightarrow> string" where
  "trimStart s = dropWhile isSpace s"

definition trim :: "string \<Rightarrow> string" where
  "trim s = rev (dropWhile isSpace (rev (dropWhile isSpace s)))"

fun split_on :: "char \<Rightarrow> string \<Rightarrow> string list" where
  \<comment> \<open>\<^verbatim>\<open>s.split(c)\<close> for a one-character separator: the empty string gives one empty piece\<close>
  "split_on sep [] = [[]]"
| "split_on sep (c # cs) =
     (if c = sep then [] # split_on sep cs
      else (case split_on sep cs of
              [] \<Rightarrow> [[c]]
            | piece # pieces \<Rightarrow> (c # piece) # pieces))"

section \<open>Paths\<close>

definition lastComponent :: "string \<Rightarrow> string" where
  \<comment> \<open>The right-most component of a POSIX path, trailing separators dropped\<close>
  "lastComponent p =
     rev (takeWhile (\<lambda>c. c \<noteq> CHR ''/'') (dropWhile (\<lambda>c. c = CHR ''/'') (rev p)))"

definition extname :: "string \<Rightarrow> string" where
  \<comment> \<open>\<^verbatim>\<open>path.extname\<close> (POSIX): from the last dot of the last component to its end; empty
      when there is no dot, when the only dot is the first character, and for \<^verbatim>\<open>..\<close>\<close>
  "extname p =
     (let b = lastComponent p;
          ext = rev (takeWhile (\<lambda>c. c \<noteq> CHR ''.'') (rev b))
      in if CHR ''.'' \<notin> set b then ''''
         else if length b = length ext + 1 then ''''
         else if b = ''..'' then ''''
         else CHR ''.'' # ext)"

definition joinRelative :: "string \<Rightarrow> string \<Rightarrow> string" where
  \<comment> \<open>\<^verbatim>\<open>path.relative(basePath, path.join(dirPath, item))\<close> where \<^verbatim>\<open>dirPath\<close> is the
      directory at the relative path \<open>rel\<close> below \<^verbatim>\<open>basePath\<close> (empty for the base itself)\<close>
  "joinRelative rel item = (if rel = '''' then item else rel @ ''/'' @ item)"

section \<open>Directory scanner (aiController)\<close>

datatype entry_type = TFile | TFolder

record CodebaseFile =
  path :: string
  name :: string
  type :: entry_type
  size_f :: "nat option"

text \<open>
  The local file tree as the scanner sees it. A directory lists its entries in the order
  \<^verbatim>\<open>fs.readdirSync\<close> returns them. \<open>NoStat\<close> is an entry on which \<^verbatim>\<open>fs.statSync\<close>
  throws (a dangling link, a deleted or protected entry); \<open>Unreadable\<close> is a directory on
  which \<^verbatim>\<open>fs.readdirSync\<close> throws.
\<close>

datatype fsnode =
    FileNode nat
  | DirNode "(string \<times> fsnode) list"
  | Unreadable
  | NoStat

datatype pattern =
    Starts string
  | Contains string
  | Ends string
  | EndsDotAnyCI "string list"

fun test :: "pattern \<Rightarrow> string \<Rightarrow> bool" where
  \<comment> \<open>\<^verbatim>\<open>pattern.test(s)\<close> for the four shapes of regular expression of the ignore list:
      \<^verbatim>\<open>/^p/\<close>, \<^verbatim>\<open>/p/\<close>, \<^verbatim>\<open>/p$/\<close> and \<^verbatim>\<open>/\.(a|b|...)$/i\<close>\<close>
  "test (Starts p) s = startsWith s p"
| "test (Contains p) s = includes_str s p"
| "test (Ends p) s = endsWith s p"
| "test (EndsDotAnyCI exts) s = list_ex (\<lambda>e. endsWith (toLowerCase s) (CHR ''.'' # e)) exts"

definition ignorePatterns :: "pattern list" where
  "ignorePatterns =
     [Starts ''.'',
      Contains ''node_modules'',
      Contains ''vendor'',
      Contains ''venv'',
      Contains ''__pycache__'',
      Contains ''dist'',
      Contains ''build'',
      Contains ''out'',
      Contains ''target'',
      Contains ''.vscode'',
      Contains ''.idea'',
      Contains ''.DS_Store'',
      Contains ''Thumbs.db'',
      Ends ''.log'',
      Ends ''package-lock.json'',
      Ends ''yarn.lock'',
      Ends ''composer.lock'',
      EndsDotAnyCI [''exe'', ''dll'', ''so'', ''dylib'', ''bin'', ''img'', ''iso''],
      EndsDotAnyCI [''jpg'', ''jpeg'', ''png'', ''gif'', ''bmp'', ''svg'', ''ico'',
                    ''mp4'', ''mp3'', ''wav'', ''avi'']]"

definition shouldIgnoreFile :: "string \<Rightarrow> string \<Rightarrow> bool" where
  "shouldIgnoreFile fileName relativePath =
     list_ex (\<lambda>p. test p fileName \<or> test p relativePath) ignorePatterns"

text \<open>
  \<open>scanItems\<close> is the \<^verbatim>\<open>for\<close> loop of \<^verbatim>\<open>scanDirectory\<close> with its accumulator
  \<^verbatim>\<open>files\<close>. The \<^verbatim>\<open>try\<close> block encloses the whole loop, so an exception of
  \<^verbatim>\<open>statSync\<close> leaves the loop and the function returns what \<^verbatim>\<open>files\<close> holds then.
  The recursive call never throws: it catches its own exceptions.
\<close>

fun scanDirectory :: "string \<Rightarrow> fsnode \<Rightarrow> CodebaseFile list"
  and scanItems :: "string \<Rightarrow> CodebaseFile list \<Rightarrow> (string \<times> fsnode) list \<Rightarrow> CodebaseFile list"
where
  "scanDirectory rel (DirNode items) = scanItems rel [] items"
| "scanDirectory rel (FileNode n) = []"
| "scanDirectory rel Unreadable = []"
| "scanDirectory rel NoStat = []"
| "scanItems rel files [] = files"
| "scanItems rel files ((item, node) # rest) =
     (let relativePath = joinRelative rel item in
      if shouldIgnoreFile item relativePath then scanItems rel files rest
      else (case node of
              NoStat \<Rightarrow> files
            | FileNode n \<Rightarrow>
                scanItems rel
                  (files @ [\<lparr>path = relativePath, name = item, type = TFile, size_f = Some n\<rparr>])
                  rest
            | _ \<Rightarrow>
                scanItems rel
                  (files @ [\<lparr>path = relativePath, name = item, type = TFolder, size_f = None\<rparr>]
                         @ scanDirectory relativePath node)
                  rest))"

text \<open>
  Names as a file system has them: no entry name contains the path separator.
\<close>

fun plain_names :: "fsnode \<Rightarrow> bool" where
  "plain_names (DirNode items) =
     (\<forall>x \<in> set items. CHR ''/'' \<notin> set (fst x) \<and> plain_names (snd x))"
| "plain_names _ = True"

text \<open>
  \<open>parents_first seen out\<close>: reading \<open>out\<close> from the left, every directory prefix of the
  path of an entry is the path of a folder entry met before it, or is in \<open>seen\<close>.
\<close>

definition dir_prefixes :: "string \<Rightarrow> string set" where
  "dir_prefixes p = {d. \<exists>q. p = d @ ''/'' @ q}"

fun parents_first :: "string set \<Rightarrow> CodebaseFile list \<Rightarrow> bool" where
  "parents_first seen [] = True"
| "parents_first seen (e # es) =
     (dir_prefixes (path e) \<subseteq> seen \<and>
      parents_first (if type e = TFolder then insert (path e) seen else seen) es)"

definition folder_paths :: "CodebaseFile list \<Rightarrow> string set" where
  "folder_paths out = path ` {e \<in> set out. type e = TFolder}"

section \<open>Relevance filter (fetchCodebaseFiles)\<close>

definition relevantExtensions :: "string list" where
  "relevantExtensions =
     [''.js'', ''.jsx'', ''.ts'', ''.tsx'', ''.py'', ''.java'', ''.cpp'', ''.c'', ''.h'',
      ''.cs'', ''.php'', ''.rb'', ''.go'', ''.rs'', ''.swift'', ''.kt'', ''.scala'',
      ''.json'', ''.yaml'', ''.yml'', ''.toml'', ''.xml'', ''.md'', ''.txt'',
      ''.sql'', ''.sh'', ''.bat'', ''.ps1'', ''.dockerfile'', ''.env'']"

definition relevantFile :: "CodebaseFile \<Rightarrow> bool" where
  \<comment> \<open>The predicate passed to \<^verbatim>\<open>files.filter\<close>\<close>
  "relevantFile f =
     (let ext = toLowerCase (extname (path f)) in
      type f = TFile \<and>
      (ext \<in> set relevantExtensions \<or>
       includes_str (toLowerCase (name f)) ''readme'' \<or>
       includes_str (toLowerCase (name f)) ''config'' \<or>
       includes_str (toLowerCase (name f)) ''package'' \<or>
       includes_str (toLowerCase (name f)) ''makefile'' \<or>
       ext = ''''))"

definition relevantFiles_filter :: "CodebaseFile list \<Rightarrow> CodebaseFile list" where
  "relevantFiles_filter files = filter relevantFile files"

definition fetchCodebaseFiles :: "fsnode option \<Rightarrow> string + CodebaseFile list" where
  \<comment> \<open>The argument is the tree at the codebase folder, \<open>None\<close> when
      \<^verbatim>\<open>fs.existsSync\<close> is false. Every exception is rethrown with one message.\<close>
  "fetchCodebaseFiles root =
     (case root of
        None \<Rightarrow> Inl ''Could not fetch codebase files from local folder''
      | Some tree \<Rightarrow> Inr (relevantFiles_filter (scanDirectory '''' tree)))"

section \<open>File analysis (aiService)\<close>

record FileAnalysis =
  relevantFiles :: "string list"
  reasoning :: string
  confidence :: string

text \<open>
  The three regular expressions of \<^verbatim>\<open>parseFileAnalysis\<close>, as the matcher runs them.
  \<^verbatim>\<open>/MARKER:\s*([\s\S]*?)(?=STOP:|$)/\<close> matches at the leftmost \<^verbatim>\<open>MARKER:\<close>: there the
  greedy \<^verbatim>\<open>\s*\<close> takes the whole run of white space, and the lazy group grows one
  character at a time until \<^verbatim>\<open>STOP:\<close> follows or the text ends, which always
  happens. \<open>afterFirst\<close> is the text after the leftmost marker, \<open>lazyUntil\<close> the
  lazy group, \<open>section_match\<close> the captured group of a match.
\<close>

fun afterFirst :: "string \<Rightarrow> string \<Rightarrow> string option" where
  "afterFirst m [] = (if m = [] then Some [] else None)"
| "afterFirst m (c # cs) =
     (if prefix m (c # cs) then Some (drop (length m) (c # cs)) else afterFirst m cs)"

fun lazyUntil :: "string \<Rightarrow> string \<Rightarrow> string" where
  "lazyUntil stop [] = []"
| "lazyUntil stop (c # cs) = (if prefix stop (c # cs) then [] else c # lazyUntil stop cs)"

definition section_match :: "string \<Rightarrow> string \<Rightarrow> string \<Rightarrow> string option" where
  "section_match marker stop text =
     map_option (\<lambda>rest. lazyUntil stop (dropWhile isSpace rest)) (afterFirst marker text)"

text \<open>
  \<^verbatim>\<open>/CONFIDENCE:\s*(high|medium|low)/i\<close>: the flag makes the marker and the three words
  match whatever the case of the letters. At a position where the marker matches but no
  word follows the white space, the matcher goes on to the next position. The captured
  group is the word as it is written in the text.
\<close>

fun prefixCI :: "string \<Rightarrow> string \<Rightarrow> bool" where
  \<comment> \<open>The lower-case literal \<open>p\<close> matches at the start of \<open>s\<close>, letter case ignored\<close>
  "prefixCI [] s = True"
| "prefixCI (p # ps) [] = False"
| "prefixCI (p # ps) (c # cs) = (toLowerChar c = p \<and> prefixCI ps cs)"

definition levelAt :: "string \<Rightarrow> string option" where
  "levelAt s =
     (if prefixCI ''high'' s then Some (take 4 s)
      else if prefixCI ''medium'' s then Some (take 6 s)
      else if prefixCI ''low'' s then Some (take 3 s)
      else None)"

definition confidenceAt :: "string \<Rightarrow> string option" where
  "confidenceAt s =
     (if prefixCI ''confidence:'' s
      then levelAt (dropWhile isSpace (drop (length ''confidence:'') s))
      else None)"

fun confidence_match :: "string \<Rightarrow> string option" where
  "confidence_match [] = None"
| "confidence_match (c # cs) =
     (case confidenceAt (c # cs) of
        Some g \<Rightarrow> Some g
      | None \<Rightarrow> confidence_match cs)"

definition keepLine :: "string \<Rightarrow> bool" where
  \<comment> \<open>The predicate passed to \<^verbatim>\<open>filter\<close>: a non-empty line that starts neither with a
      bracket nor with two slashes\<close>
  "keepLine line = (line \<noteq> '''' \<and> \<not> startsWith line ''['' \<and> \<not> startsWith line ''//'')"

definition parseFileAnalysis :: "string \<Rightarrow> FileAnalysis" where
  "parseFileAnalysis response =
     (let reasoningMatch = section_match ''REASONING:'' ''RELEVANT_FILES:'' response;
          filesMatch = section_match ''RELEVANT_FILES:'' ''CONFIDENCE:'' response;
          confidenceMatch = confidence_match response;
          reasoning_v = (case reasoningMatch of Some g \<Rightarrow> trim g | None \<Rightarrow> ''Analysis completed'');
          filesText = (case filesMatch of Some g \<Rightarrow> trim g | None \<Rightarrow> '''');
          confidence_v = (case confidenceMatch of Some g \<Rightarrow> toLowerCase g | None \<Rightarrow> ''medium'');
          relevantFiles_v = take 15 (filter keepLine (map trim (split_on (CHR 0x0A) filesText)))
      in \<lparr>relevantFiles = relevantFiles_v, reasoning = reasoning_v, confidence = confidence_v\<rparr>)"

section \<open>Properties of the scanner and of the filter\<close>

lemma scanItems_acc: "scanItems rel files items = files @ scanItems rel [] items"
proof (induction items arbitrary: files)
  case Nil
  then show ?case by simp
next
  case (Cons x rest)
  obtain item node where x: "x = (item, node)" by (cases x)
  show ?case
  proof (cases "shouldIgnoreFile item (joinRelative rel item)")
    case True
    then show ?thesis using Cons.IH [of files] by (simp add: x Let_def)
  next
    case False
    show ?thesis
    proof (cases node)
      case (FileNode n)
      then show ?thesis
        using False Cons.IH [of "files @ [\<lparr>path = joinRelative rel item, name = item, type = TFile, size_f = Some n\<rparr>]"]
          Cons.IH [of "[\<lparr>path = joinRelative rel item, name = item, type = TFile, size_f = Some n\<rparr>]"]
        by (simp add: x Let_def)
    next
      case (DirNode sub)
      then show ?thesis
        using False Cons.IH [of "files @ [\<lparr>path = joinRelative rel item, name = item, type = TFolder, size_f = None\<rparr>] @ scanDirectory (joinRelative rel item) node"]
          Cons.IH [of "[\<lparr>path = joinRelative rel item, name = item, type = TFolder, size_f = None\<rparr>] @ scanDirectory (joinRelative rel item) node"]
        by (simp add: x Let_def)
    next
      case Unreadable
      then show ?thesis
        using False Cons.IH [of "files @ [\<lparr>path = joinRelative rel item, name = item, type = TFolder, size_f = None\<rparr>]"]
          Cons.IH [of "[\<lparr>path = joinRelative rel item, name = item, type = TFolder, size_f = None\<rparr>]"]
        by (simp add: x Let_def)
    next
      case NoStat
      then show ?thesis using False by (simp add: x Let_def)
    qed
  qed
qed

lemma scanItems_ignored:
  "shouldIgnoreFile item (joinRelative rel item) \<Longrightarrow>
   scanItems rel files ((item, node) # rest) = scanItems rel files rest"
  by (simp add: Let_def)

lemma scanItems_nostat:
  "\<not> shouldIgnoreFile item (joinRelative rel item) \<Longrightarrow>
   scanItems rel files ((item, NoStat) # rest) = files"
  by (simp add: Let_def)

lemma scanItems_file:
  "\<not> shouldIgnoreFile item (joinRelative rel item) \<Longrightarrow>
   scanItems rel files ((item, FileNode n) # rest) =
   files @ \<lparr>path = joinRelative rel item, name = item, type = TFile, size_f = Some n\<rparr>
     # scanItems rel [] rest"
  using scanItems_acc [of rel "files @ [\<lparr>path = joinRelative rel item, name = item, type = TFile, size_f = Some n\<rparr>]" rest]
  by (simp add: Let_def)

lemma scanItems_dir:
  "\<not> shouldIgnoreFile item (joinRelative rel item) \<Longrightarrow> node = DirNode sub \<or> node = Unreadable \<Longrightarrow>
   scanItems rel files ((item, node) # rest) =
   files @ \<lparr>path = joinRelative rel item, name = item, type = TFolder, size_f = None\<rparr>
     # scanDirectory (joinRelative rel item) node @ scanItems rel [] rest"
  using scanItems_acc [of rel "files @ [\<lparr>path = joinRelative rel item, name = item, type = TFolder, size_f = None\<rparr>] @ scanDirectory (joinRelative rel item) node" rest]
  by (auto simp: Let_def)

lemma scan_not_ignored:
  "e \<in> set (scanDirectory rel t) \<Longrightarrow> \<not> shouldIgnoreFile (name e) (path e)"
  "e \<in> set (scanItems rel files items) \<Longrightarrow> e \<in> set files \<or> \<not> shouldIgnoreFile (name e) (path e)"
proof (induction rel t and rel files items arbitrary: e and e rule: scanDirectory_scanItems.induct)
  case (6 rel files item node rest)
  show ?case
  proof (cases "shouldIgnoreFile item (joinRelative rel item)")
    case True
    then show ?thesis using 6 by simp
  next
    case False
    then show ?thesis using 6 by (cases node) (fastforce simp: Let_def)+
  qed
qed auto

lemmas scan_eval = shouldIgnoreFile_def ignorePatterns_def startsWith_def endsWith_def
  joinRelative_def toLowerCase_def toLowerChar_def Let_def

lemma dir_prefixes_joinRelative:
  assumes "CHR ''/'' \<notin> set item" and "d \<in> dir_prefixes (joinRelative rel item)"
  shows "rel \<noteq> [] \<and> (d = rel \<or> d \<in> dir_prefixes rel)"
proof -
  from assms(2) obtain q where q: "joinRelative rel item = d @ ''/'' @ q"
    by (auto simp: dir_prefixes_def)
  show ?thesis
  proof (cases "rel = []")
    case True
    with q assms(1) show ?thesis by (auto simp: joinRelative_def)
  next
    case False
    with q have "rel @ (''/'' @ item) = d @ (''/'' @ q)" by (simp add: joinRelative_def)
    then obtain us where
      "(rel = d @ us \<and> us @ (''/'' @ item) = ''/'' @ q) \<or> (rel @ us = d \<and> ''/'' @ item = us @ (''/'' @ q))"
      unfolding append_eq_append_conv2 by blast
    then show ?thesis
    proof
      assume a: "rel = d @ us \<and> us @ (''/'' @ item) = ''/'' @ q"
      show ?thesis
      proof (cases us)
        case Nil
        with a False show ?thesis by simp
      next
        case (Cons u us')
        with a have "u = CHR ''/''" by simp
        with a Cons have "rel = d @ ''/'' @ us'" by simp
        then show ?thesis using False by (auto simp: dir_prefixes_def)
      qed
    next
      assume a: "rel @ us = d \<and> ''/'' @ item = us @ (''/'' @ q)"
      show ?thesis
      proof (cases us)
        case Nil
        with a False show ?thesis by simp
      next
        case (Cons u us')
        with a have "item = us' @ ''/'' @ q" by simp
        with assms(1) show ?thesis by simp
      qed
    qed
  qed
qed

lemma parents_first_append:
  "parents_first seen (xs @ ys) =
   (parents_first seen xs \<and> parents_first (seen \<union> folder_paths xs) ys)"
proof (induction xs arbitrary: seen)
  case Nil
  then show ?case by (simp add: folder_paths_def)
next
  case (Cons e xs)
  have "insert (path e) seen \<union> folder_paths xs = seen \<union> folder_paths (e # xs)" if "type e = TFolder"
    using that by (auto simp: folder_paths_def)
  moreover have "seen \<union> folder_paths xs = seen \<union> folder_paths (e # xs)" if "type e \<noteq> TFolder"
    using that by (auto simp: folder_paths_def)
  ultimately show ?case using Cons.IH by simp
qed

lemma parents_first_mono:
  "parents_first seen out \<Longrightarrow> seen \<subseteq> seen' \<Longrightarrow> parents_first seen' out"
proof (induction out arbitrary: seen seen')
  case Nil
  then show ?case by simp
next
  case (Cons e es)
  from Cons.prems have 1: "dir_prefixes (path e) \<subseteq> seen'" by auto
  have 2: "parents_first (if type e = TFolder then insert (path e) seen' else seen') es"
    by (rule Cons.IH [of "if type e = TFolder then insert (path e) seen else seen"])
       (use Cons.prems in auto)
  from 1 2 show ?case by simp
qed

lemma scanItems_parents_first:
  assumes sub: "\<And>x rel' seen'. x \<in> set items \<Longrightarrow> plain_names (snd x) \<Longrightarrow>
             (rel' \<noteq> [] \<longrightarrow> insert rel' (dir_prefixes rel') \<subseteq> seen') \<Longrightarrow>
             parents_first seen' (scanDirectory rel' (snd x))"
    and names: "\<forall>x \<in> set items. CHR ''/'' \<notin> set (fst x) \<and> plain_names (snd x)"
    and cover: "rel \<noteq> [] \<longrightarrow> insert rel (dir_prefixes rel) \<subseteq> seen"
  shows "parents_first seen (scanItems rel [] items)"
  using sub names
proof (induction items)
  case Nil
  then show ?case by simp
next
  case (Cons x rest)
  obtain item node where x: "x = (item, node)" by (cases x)
  let ?p = "joinRelative rel item"
  from Cons.prems(2) x have slash: "CHR ''/'' \<notin> set item" and pn: "plain_names node"
    by auto
  have pre: "dir_prefixes ?p \<subseteq> seen"
    using dir_prefixes_joinRelative [OF slash] cover by blast
  have cov: "?p \<noteq> [] \<longrightarrow> insert ?p (dir_prefixes ?p) \<subseteq> insert ?p seen"
    using pre by auto
  have tail: "parents_first seen (scanItems rel [] rest)"
    using Cons.IH Cons.prems by simp
  show ?case
  proof (cases "shouldIgnoreFile item ?p")
    case True
    then show ?thesis using tail by (simp add: x)
  next
    case False
    show ?thesis
    proof (cases node)
      case NoStat
      then show ?thesis using False by (simp add: x Let_def)
    next
      case (FileNode n)
      then show ?thesis
        using False pre tail scanItems_file [OF False, of "[]" n rest] by (simp add: x)
    next
      case (DirNode sub)
      have inner: "parents_first (insert ?p seen) (scanDirectory ?p node)"
        using Cons.prems(1) [of x ?p "insert ?p seen"] pn cov by (simp add: x)
      have more: "parents_first (insert ?p seen \<union> folder_paths (scanDirectory ?p node))
                    (scanItems rel [] rest)"
        using tail by (rule parents_first_mono) auto
      show ?thesis
        using scanItems_dir [OF False, of node sub "[]" rest] DirNode pre inner more
        by (simp add: x parents_first_append)
    next
      case Unreadable
      have more: "parents_first (insert ?p seen) (scanItems rel [] rest)"
        using tail by (rule parents_first_mono) auto
      show ?thesis
        using scanItems_dir [OF False, of node "[]" "[]" rest] Unreadable pre more
        by (simp add: x)
    qed
  qed
qed

lemma scan_parents_first:
  "plain_names t \<Longrightarrow> (rel \<noteq> [] \<longrightarrow> insert rel (dir_prefixes rel) \<subseteq> seen) \<Longrightarrow>
   parents_first seen (scanDirectory rel t)"
proof (induction t arbitrary: rel seen)
  case (DirNode items)
  have "parents_first seen (scanItems rel [] items)"
  proof (rule scanItems_parents_first)
    fix x rel' seen'
    assume "x \<in> set items" "plain_names (snd x)"
      "rel' \<noteq> [] \<longrightarrow> insert rel' (dir_prefixes rel') \<subseteq> seen'"
    moreover have "snd x \<in> Basic_BNFs.snds x" by (cases x) simp
    ultimately show "parents_first seen' (scanDirectory rel' (snd x))"
      using DirNode.IH [of x "snd x" rel' seen'] by blast
  next
    show "\<forall>x \<in> set items. CHR ''/'' \<notin> set (fst x) \<and> plain_names (snd x)"
      using DirNode.prems(1) by simp
  next
    show "rel \<noteq> [] \<longrightarrow> insert rel (dir_prefixes rel) \<subseteq> seen"
      using DirNode.prems(2) .
  qed
  then show ?case by simp
qed simp_all

lemma parents_first_nth:
  "parents_first seen out \<Longrightarrow> i < length out \<Longrightarrow> path (out ! i) = p @ ''/'' @ q \<Longrightarrow>
   p \<in> seen \<or> (\<exists>j<i. path (out ! j) = p \<and> type (out ! j) = TFolder)"
proof (induction out arbitrary: seen i)
  case Nil
  then show ?case by simp
next
  case (Cons e es)
  show ?case
  proof (cases i)
    case 0
    with Cons.prems have "p \<in> dir_prefixes (path e)" by (auto simp: dir_prefixes_def)
    with Cons.prems show ?thesis by auto
  next
    case (Suc k)
    with Cons.prems have k: "k < length es" and pk: "path (es ! k) = p @ ''/'' @ q" by auto
    from Cons.prems have "parents_first (if type e = TFolder then insert (path e) seen else seen) es"
      by simp
    from Cons.IH [OF this k pk]
    have "p \<in> (if type e = TFolder then insert (path e) seen else seen) \<or>
          (\<exists>j<k. path (es ! j) = p \<and> type (es ! j) = TFolder)" .
    then show ?thesis
    proof
      assume "p \<in> (if type e = TFolder then insert (path e) seen else seen)"
      then have "p \<in> seen \<or> (path e = p \<and> type e = TFolder)" by (auto split: if_splits)
      then show ?thesis using Suc by auto
    next
      assume "\<exists>j<k. path (es ! j) = p \<and> type (es ! j) = TFolder"
      then obtain j where "j < k" "path (es ! j) = p" "type (es ! j) = TFolder" by blast
      then have "Suc j < i \<and> path ((e # es) ! Suc j) = p \<and> type ((e # es) ! Suc j) = TFolder"
        using Suc by simp
      then show ?thesis by blast
    qed
  qed
qed

lemma includes_str_append: "includes_str (a @ p @ b) p"
proof (induction a)
  case Nil
  show ?case
  proof (cases "p @ b")
    case Nil
    then show ?thesis by simp
  next
    case (Cons c cs)
    have "prefix p (p @ b)" by simp
    then have "prefix p (c # cs)" using Cons by simp
    then have "includes_str (c # cs) p" by simp
    then show ?thesis using Cons by simp
  qed
next
  case (Cons x a)
  then show ?case by simp
qed

lemma includes_str_split: "includes_str s p \<Longrightarrow> \<exists>a b. s = a @ p @ b"
proof (induction s)
  case Nil
  then show ?case by simp
next
  case (Cons c cs)
  from Cons.prems have "prefix p (c # cs) \<or> includes_str cs p" by simp
  then show ?case
  proof
    assume "prefix p (c # cs)"
    then obtain b where "c # cs = p @ b" by (auto simp: prefix_def)
    then have "c # cs = [] @ p @ b" by simp
    then show ?thesis by blast
  next
    assume "includes_str cs p"
    with Cons.IH obtain a b where "cs = a @ p @ b" by blast
    then have "c # cs = (c # a) @ p @ b" by simp
    then show ?thesis by blast
  qed
qed

lemma includes_str_iff: "includes_str s p \<longleftrightarrow> (\<exists>a b. s = a @ p @ b)"
  using includes_str_append includes_str_split by blast

lemma shouldIgnoreFile_substring:
  assumes "pat \<in> set [''out'', ''dist'', ''build'', ''target'', ''vendor'', ''venv'', ''node_modules'']"
    and "includes_str fileName pat \<or> includes_str relativePath pat"
  shows "shouldIgnoreFile fileName relativePath"
  using assms by (auto simp: shouldIgnoreFile_def ignorePatterns_def)

lemma scanItems_stops_at_stat_failure:
  assumes "\<not> shouldIgnoreFile item (joinRelative rel item)"
  shows "scanItems rel files (before @ (item, NoStat) # after) = scanItems rel files before"
proof (induction before arbitrary: files)
  case Nil
  then show ?case using assms by (simp add: Let_def)
next
  case (Cons x before)
  obtain i n where x: "x = (i, n)" by (cases x)
  show ?case
    by (cases n) (simp_all add: x Let_def Cons.IH)
qed

subsection \<open>C10: substrings of the ignore list\<close>

text \<open>
  Claim C10. The ignore check tests every pattern, unanchored, against the entry name and
  against the relative path. So an entry whose name or relative path contains \<open>out\<close>,
  \<open>dist\<close>, \<open>build\<close>, \<open>target\<close>, \<open>vendor\<close>, \<open>venv\<close> or \<open>node_modules\<close> is ignored;
  every entry below a directory whose name contains one of them is ignored through its own
  relative path; and no entry the scanner returns has such a name or path. The files
  \<^verbatim>\<open>layout.ts\<close> and \<^verbatim>\<open>distance.py\<close> and the file \<^verbatim>\<open>checkout/main.ts\<close> are left out.
\<close>
theorem ignore_substring_excludes_subtree:
  assumes "pat \<in> set [''out'', ''dist'', ''build'', ''target'', ''vendor'', ''venv'', ''node_modules'']"
  shows "(includes_str fileName pat \<or> includes_str relativePath pat
            \<longrightarrow> shouldIgnoreFile fileName relativePath)
       \<and> (includes_str dir pat \<longrightarrow>
            shouldIgnoreFile item (joinRelative (joinRelative rel dir) item))
       \<and> (\<forall>e \<in> set (scanDirectory rel t).
            \<not> includes_str (name e) pat \<and> \<not> includes_str (path e) pat)
       \<and> shouldIgnoreFile ''layout.ts'' ''src/layout.ts''
       \<and> shouldIgnoreFile ''distance.py'' ''distance.py''
       \<and> shouldIgnoreFile ''main.ts'' ''checkout/main.ts''
       \<and> scanDirectory ''''
            (DirNode [(''layout.ts'', FileNode 1), (''distance.py'', FileNode 2),
                      (''checkout'', DirNode [(''main.ts'', FileNode 3)]),
                      (''app.ts'', FileNode 4)])
          = [\<lparr>path = ''app.ts'', name = ''app.ts'', type = TFile, size_f = Some 4\<rparr>]"
proof -
  have 1: "includes_str fileName pat \<or> includes_str relativePath pat
            \<longrightarrow> shouldIgnoreFile fileName relativePath"
    using shouldIgnoreFile_substring [OF assms] by blast
  have 2: "includes_str dir pat \<longrightarrow>
            shouldIgnoreFile item (joinRelative (joinRelative rel dir) item)"
  proof
    assume "includes_str dir pat"
    then obtain a b where d: "dir = a @ pat @ b" using includes_str_split by blast
    have "joinRelative (joinRelative rel dir) item
            = (if rel = [] then a else rel @ ''/'' @ a) @ pat @ (b @ ''/'' @ item)"
      "dir \<noteq> []" using assms d by (auto simp: joinRelative_def)
    then have "includes_str (joinRelative (joinRelative rel dir) item) pat"
      using includes_str_append by metis
    then show "shouldIgnoreFile item (joinRelative (joinRelative rel dir) item)"
      using shouldIgnoreFile_substring [OF assms] by blast
  qed
  have 3: "\<forall>e \<in> set (scanDirectory rel t).
            \<not> includes_str (name e) pat \<and> \<not> includes_str (path e) pat"
    using scan_not_ignored(1) shouldIgnoreFile_substring [OF assms] by blast
  have 4: "shouldIgnoreFile ''layout.ts'' ''src/layout.ts''"
    by (simp add: scan_eval)
  have 5: "shouldIgnoreFile ''distance.py'' ''distance.py''"
    by (simp add: scan_eval)
  have 6: "shouldIgnoreFile ''main.ts'' ''checkout/main.ts''"
    by (simp add: scan_eval)
  have 7: "scanDirectory ''''
            (DirNode [(''layout.ts'', FileNode 1), (''distance.py'', FileNode 2),
                      (''checkout'', DirNode [(''main.ts'', FileNode 3)]),
                      (''app.ts'', FileNode 4)])
          = [\<lparr>path = ''app.ts'', name = ''app.ts'', type = TFile, size_f = Some 4\<rparr>]"
    by (simp add: scan_eval)
  from 1 2 3 4 5 6 7 show ?thesis by blast
qed

theorem ignore_substring_excludes_subtree_witness:
  "''out'' \<in> set [''out'', ''dist'', ''build'', ''target'', ''vendor'', ''venv'', ''node_modules'']
   \<and> includes_str ''layout.ts'' ''out''
   \<and> shouldIgnoreFile ''layout.ts'' ''src/layout.ts''
   \<and> includes_str ''checkout'' ''out''
   \<and> shouldIgnoreFile ''main.ts'' (joinRelative (joinRelative '''' ''checkout'') ''main.ts'')"
proof -
  have h: "''out'' \<in> set [''out'', ''dist'', ''build'', ''target'', ''vendor'', ''venv'', ''node_modules'']"
    by simp
  have i: "includes_str ''layout.ts'' ''out''" "includes_str ''checkout'' ''out''" by simp_all
  show ?thesis
    using h i ignore_substring_excludes_subtree [OF h, of "''layout.ts''" "''src/layout.ts''" "''checkout''" "''main.ts''" "''''"]
    by blast
qed

lemmas path_eval = extname_def lastComponent_def relevantExtensions_def relevantFile_def
  relevantFiles_filter_def toLowerCase_def toLowerChar_def Let_def

subsection \<open>C4: a failing \<^verbatim>\<open>statSync\<close>\<close>

text \<open>
  Claim C4, as stated, says that the entries listed after an entry whose \<^verbatim>\<open>statSync\<close>
  fails still appear. In a directory listing \<^verbatim>\<open>a.ts\<close>, \<^verbatim>\<open>gone.ts\<close> (stat fails) and
  \<^verbatim>\<open>b.ts\<close>, the scan returns \<^verbatim>\<open>a.ts\<close> alone: \<^verbatim>\<open>b.ts\<close> is lost.
\<close>
theorem scan_stat_failure_counterexample:
  "scanDirectory ''''
     (DirNode [(''a.ts'', FileNode 1), (''gone.ts'', NoStat), (''b.ts'', FileNode 2)])
   = [\<lparr>path = ''a.ts'', name = ''a.ts'', type = TFile, size_f = Some 1\<rparr>]
   \<and> \<lparr>path = ''b.ts'', name = ''b.ts'', type = TFile, size_f = Some 2\<rparr>
       \<notin> set (scanDirectory ''''
           (DirNode [(''a.ts'', FileNode 1), (''gone.ts'', NoStat), (''b.ts'', FileNode 2)]))"
  by (simp add: scan_eval)

text \<open>
  Claim C4, amended. The failure is caught by the scan of the directory that holds the
  failing entry: that scan ends there and returns what it had collected, so the failing
  entry and the entries listed after it in that directory are left out. The scan of the
  parent directory goes on with the entries listed after that directory.
\<close>
theorem scan_stat_failure_ends_directory:
  assumes "\<not> shouldIgnoreFile item (joinRelative (joinRelative rel dir) item)"
    and "\<not> shouldIgnoreFile dir (joinRelative rel dir)"
  shows "scanItems (joinRelative rel dir) files' (before @ (item, NoStat) # after)
           = scanItems (joinRelative rel dir) files' before
       \<and> scanItems rel files ((dir, DirNode (before @ (item, NoStat) # after)) # rest)
           = files
             @ \<lparr>path = joinRelative rel dir, name = dir, type = TFolder, size_f = None\<rparr>
             # scanItems (joinRelative rel dir) [] before
             @ scanItems rel [] rest"
proof -
  have 1: "scanItems (joinRelative rel dir) fs (before @ (item, NoStat) # after)
           = scanItems (joinRelative rel dir) fs before" for fs
    using scanItems_stops_at_stat_failure [OF assms(1)] .
  have "scanItems rel files ((dir, DirNode (before @ (item, NoStat) # after)) # rest)
        = files
          @ \<lparr>path = joinRelative rel dir, name = dir, type = TFolder, size_f = None\<rparr>
          # scanDirectory (joinRelative rel dir) (DirNode (before @ (item, NoStat) # after))
          @ scanItems rel [] rest"
    using scanItems_dir [OF assms(2)] by blast
  then show ?thesis using 1 by simp
qed

theorem scan_stat_failure_ends_directory_witness:
  "\<not> shouldIgnoreFile ''gone.ts'' (joinRelative (joinRelative '''' ''src'') ''gone.ts'')
   \<and> \<not> shouldIgnoreFile ''src'' (joinRelative '''' ''src'')
   \<and> scanDirectory ''''
       (DirNode [(''src'', DirNode [(''a.ts'', FileNode 1), (''gone.ts'', NoStat), (''b.ts'', FileNode 2)]),
                 (''README.md'', FileNode 3)])
     = [\<lparr>path = ''src'', name = ''src'', type = TFolder, size_f = None\<rparr>,
        \<lparr>path = ''src/a.ts'', name = ''a.ts'', type = TFile, size_f = Some 1\<rparr>,
        \<lparr>path = ''README.md'', name = ''README.md'', type = TFile, size_f = Some 3\<rparr>]"
proof -
  have h1: "\<not> shouldIgnoreFile ''gone.ts'' (joinRelative (joinRelative '''' ''src'') ''gone.ts'')"
    by (simp add: scan_eval)
  have h2: "\<not> shouldIgnoreFile ''src'' (joinRelative '''' ''src'')"
    by (simp add: scan_eval)
  have a: "scanItems (joinRelative '''' ''src'') [] [(''a.ts'', FileNode 1)]
            = [\<lparr>path = ''src/a.ts'', name = ''a.ts'', type = TFile, size_f = Some 1\<rparr>]"
    by (simp add: scan_eval)
  have b: "scanItems '''' [] [(''README.md'', FileNode 3)]
            = [\<lparr>path = ''README.md'', name = ''README.md'', type = TFile, size_f = Some 3\<rparr>]"
    by (simp add: scan_eval)
  have c: "joinRelative '''' ''src'' = ''src''" by (simp add: joinRelative_def)
  from scan_stat_failure_ends_directory [OF h1 h2, of "[]" "[(''a.ts'', FileNode 1)]" "[(''b.ts'', FileNode 2)]" "[]" "[(''README.md'', FileNode 3)]"]
  have "scanItems '''' [] [(''src'', DirNode ([(''a.ts'', FileNode 1)] @ (''gone.ts'', NoStat) # [(''b.ts'', FileNode 2)])), (''README.md'', FileNode 3)]
        = [] @ \<lparr>path = joinRelative '''' ''src'', name = ''src'', type = TFolder, size_f = None\<rparr>
             # scanItems (joinRelative '''' ''src'') [] [(''a.ts'', FileNode 1)]
             @ scanItems '''' [] [(''README.md'', FileNode 3)]"
    by blast
  then show ?thesis using h1 h2 by (simp add: scan_eval)
qed

subsection \<open>C7: depth-first order and the ignore policy\<close>

text \<open>
  Claim C7. In the result of a scan, every directory prefix of the path of an entry is the
  path of a folder entry placed before it; no returned entry is matched by the ignore
  policy; a directory that is not ignored contributes its own entry, then the whole scan of
  its subtree, then the entries that follow it. On the tree with \<^verbatim>\<open>.git/\<close>,
  \<^verbatim>\<open>node_modules/\<close>, \<^verbatim>\<open>src/index.ts\<close> and \<^verbatim>\<open>README.md\<close> the result is exactly
  \<^verbatim>\<open>src\<close> (folder), \<^verbatim>\<open>src/index.ts\<close> (file), \<^verbatim>\<open>README.md\<close> (file).
\<close>
theorem scanner_depth_first_ignoring:
  assumes "plain_names t"
  shows "(\<forall>i < length (scanDirectory '''' t). \<forall>p q.
            path (scanDirectory '''' t ! i) = p @ ''/'' @ q \<longrightarrow>
            (\<exists>j < i. path (scanDirectory '''' t ! j) = p \<and>
                     type (scanDirectory '''' t ! j) = TFolder))
       \<and> (\<forall>e \<in> set (scanDirectory '''' t). \<not> shouldIgnoreFile (name e) (path e))
       \<and> (\<not> shouldIgnoreFile item (joinRelative rel item) \<longrightarrow>
            scanItems rel files ((item, DirNode sub) # rest)
            = files
              @ \<lparr>path = joinRelative rel item, name = item, type = TFolder, size_f = None\<rparr>
              # scanDirectory (joinRelative rel item) (DirNode sub)
              @ scanItems rel [] rest)
       \<and> scanDirectory ''''
            (DirNode [(''.git'', DirNode [(''HEAD'', FileNode 23), (''objects'', DirNode [])]),
                      (''node_modules'', DirNode [(''express'', DirNode [(''index.js'', FileNode 224)])]),
                      (''src'', DirNode [(''index.ts'', FileNode 1540)]),
                      (''README.md'', FileNode 3000)])
          = [\<lparr>path = ''src'', name = ''src'', type = TFolder, size_f = None\<rparr>,
             \<lparr>path = ''src/index.ts'', name = ''index.ts'', type = TFile, size_f = Some 1540\<rparr>,
             \<lparr>path = ''README.md'', name = ''README.md'', type = TFile, size_f = Some 3000\<rparr>]"
proof -
  have pf: "parents_first {} (scanDirectory '''' t)"
    using scan_parents_first [OF assms, of "''''" "{}"] by simp
  have 1: "\<forall>i < length (scanDirectory '''' t). \<forall>p q.
            path (scanDirectory '''' t ! i) = p @ ''/'' @ q \<longrightarrow>
            (\<exists>j < i. path (scanDirectory '''' t ! j) = p \<and>
                     type (scanDirectory '''' t ! j) = TFolder)"
    using parents_first_nth [OF pf] by blast
  have 2: "\<forall>e \<in> set (scanDirectory '''' t). \<not> shouldIgnoreFile (name e) (path e)"
    using scan_not_ignored(1) by blast
  have 3: "\<not> shouldIgnoreFile item (joinRelative rel item) \<longrightarrow>
            scanItems rel files ((item, DirNode sub) # rest)
            = files
              @ \<lparr>path = joinRelative rel item, name = item, type = TFolder, size_f = None\<rparr>
              # scanDirectory (joinRelative rel item) (DirNode sub)
              @ scanItems rel [] rest"
    using scanItems_dir by blast
  have 4: "scanDirectory ''''
            (DirNode [(''.git'', DirNode [(''HEAD'', FileNode 23), (''objects'', DirNode [])]),
                      (''node_modules'', DirNode [(''express'', DirNode [(''index.js'', FileNode 224)])]),
                      (''src'', DirNode [(''index.ts'', FileNode 1540)]),
                      (''README.md'', FileNode 3000)])
          = [\<lparr>path = ''src'', name = ''src'', type = TFolder, size_f = None\<rparr>,
             \<lparr>path = ''src/index.ts'', name = ''index.ts'', type = TFile, size_f = Some 1540\<rparr>,
             \<lparr>path = ''README.md'', name = ''README.md'', type = TFile, size_f = Some 3000\<rparr>]"
    by (simp add: scan_eval)
  from 1 2 3 4 show ?thesis by blast
qed

theorem scanner_depth_first_ignoring_witness:
  "plain_names (DirNode [(''lib'', DirNode [(''util'', DirNode [(''io.ts'', FileNode 7)])]), (''main.ts'', FileNode 9)])
   \<and> scanDirectory '''' (DirNode [(''lib'', DirNode [(''util'', DirNode [(''io.ts'', FileNode 7)])]), (''main.ts'', FileNode 9)]) ! 2
       = \<lparr>path = ''lib/util/io.ts'', name = ''io.ts'', type = TFile, size_f = Some 7\<rparr>
   \<and> (\<exists>j < 2. path (scanDirectory '''' (DirNode [(''lib'', DirNode [(''util'', DirNode [(''io.ts'', FileNode 7)])]), (''main.ts'', FileNode 9)]) ! j) = ''lib/util''
              \<and> type (scanDirectory '''' (DirNode [(''lib'', DirNode [(''util'', DirNode [(''io.ts'', FileNode 7)])]), (''main.ts'', FileNode 9)]) ! j) = TFolder)
   \<and> \<not> shouldIgnoreFile ''io.ts'' ''lib/util/io.ts''"
proof -
  let ?t = "DirNode [(''lib'', DirNode [(''util'', DirNode [(''io.ts'', FileNode 7)])]), (''main.ts'', FileNode 9)]"
  have h: "plain_names ?t" by simp
  have out: "scanDirectory '''' ?t
    = [\<lparr>path = ''lib'', name = ''lib'', type = TFolder, size_f = None\<rparr>,
       \<lparr>path = ''lib/util'', name = ''util'', type = TFolder, size_f = None\<rparr>,
       \<lparr>path = ''lib/util/io.ts'', name = ''io.ts'', type = TFile, size_f = Some 7\<rparr>,
       \<lparr>path = ''main.ts'', name = ''main.ts'', type = TFile, size_f = Some 9\<rparr>]"
    by (simp add: scan_eval)
  have nth: "scanDirectory '''' ?t ! 2
       = \<lparr>path = ''lib/util/io.ts'', name = ''io.ts'', type = TFile, size_f = Some 7\<rparr>"
    unfolding out by simp
  have split: "path (scanDirectory '''' ?t ! 2) = ''lib/util'' @ ''/'' @ ''io.ts''"
    unfolding nth by simp
  have len: "2 < length (scanDirectory '''' ?t)" unfolding out by simp
  have mem: "\<lparr>path = ''lib/util/io.ts'', name = ''io.ts'', type = TFile, size_f = Some 7\<rparr>
               \<in> set (scanDirectory '''' ?t)"
    unfolding out by simp
  from scanner_depth_first_ignoring [OF h]
  have a: "\<forall>i < length (scanDirectory '''' ?t). \<forall>p q.
            path (scanDirectory '''' ?t ! i) = p @ ''/'' @ q \<longrightarrow>
            (\<exists>j < i. path (scanDirectory '''' ?t ! j) = p \<and>
                     type (scanDirectory '''' ?t ! j) = TFolder)"
    and b: "\<forall>e \<in> set (scanDirectory '''' ?t). \<not> shouldIgnoreFile (name e) (path e)"
    by blast+
  from a len split have c: "\<exists>j < 2. path (scanDirectory '''' ?t ! j) = ''lib/util'' \<and>
                     type (scanDirectory '''' ?t ! j) = TFolder" by blast
  from b mem have d: "\<not> shouldIgnoreFile ''io.ts'' ''lib/util/io.ts''" by fastforce
  from h nth c d show ?thesis by blast
qed

subsection \<open>C9: the relevance filter\<close>

text \<open>
  Claim C9. An entry is in the filtered list exactly when it is in the input, is a file, and
  its extension (lower-cased, as the code compares it) is in the allow-list, or its name
  contains \<open>readme\<close>, \<open>config\<close>, \<open>package\<close> or \<open>makefile\<close> whatever the case of
  the letters, or it has no extension. The filtered list is a subsequence of the input, so
  the order is kept. From \<^verbatim>\<open>a.png\<close> (file), \<^verbatim>\<open>a.ts\<close> (file), \<^verbatim>\<open>notes\<close> (folder) it
  keeps exactly \<^verbatim>\<open>a.ts\<close>.
\<close>
theorem relevance_filter_exact:
  "(f \<in> set (relevantFiles_filter files) \<longleftrightarrow>
      f \<in> set files \<and> type f = TFile \<and>
      (toLowerCase (extname (path f)) \<in> set relevantExtensions
       \<or> (\<exists>k \<in> set [''readme'', ''config'', ''package'', ''makefile''].
             \<exists>a b. toLowerCase (name f) = a @ k @ b)
       \<or> extname (path f) = ''''))
   \<and> subseq (relevantFiles_filter files) files
   \<and> relevantFiles_filter
        [\<lparr>path = ''a.png'', name = ''a.png'', type = TFile, size_f = Some 10\<rparr>,
         \<lparr>path = ''a.ts'', name = ''a.ts'', type = TFile, size_f = Some 20\<rparr>,
         \<lparr>path = ''notes'', name = ''notes'', type = TFolder, size_f = None\<rparr>]
      = [\<lparr>path = ''a.ts'', name = ''a.ts'', type = TFile, size_f = Some 20\<rparr>]"
proof -
  have 1: "f \<in> set (relevantFiles_filter files) \<longleftrightarrow>
      f \<in> set files \<and> type f = TFile \<and>
      (toLowerCase (extname (path f)) \<in> set relevantExtensions
       \<or> (\<exists>k \<in> set [''readme'', ''config'', ''package'', ''makefile''].
             \<exists>a b. toLowerCase (name f) = a @ k @ b)
       \<or> extname (path f) = '''')"
    by (auto simp: relevantFiles_filter_def relevantFile_def Let_def includes_str_iff toLowerCase_def)
  have 2: "subseq (relevantFiles_filter files) files"
    by (simp add: relevantFiles_filter_def)
  have 3: "relevantFiles_filter
        [\<lparr>path = ''a.png'', name = ''a.png'', type = TFile, size_f = Some 10\<rparr>,
         \<lparr>path = ''a.ts'', name = ''a.ts'', type = TFile, size_f = Some 20\<rparr>,
         \<lparr>path = ''notes'', name = ''notes'', type = TFolder, size_f = None\<rparr>]
      = [\<lparr>path = ''a.ts'', name = ''a.ts'', type = TFile, size_f = Some 20\<rparr>]"
    by (simp add: path_eval)
  from 1 2 3 show ?thesis by blast
qed

theorem relevance_filter_exact_witness:
  "\<lparr>path = ''docs/Readme.PDF'', name = ''Readme.PDF'', type = TFile, size_f = Some 20\<rparr>
     \<in> set (relevantFiles_filter
         [\<lparr>path = ''a.png'', name = ''a.png'', type = TFile, size_f = Some 10\<rparr>,
          \<lparr>path = ''docs/Readme.PDF'', name = ''Readme.PDF'', type = TFile, size_f = Some 20\<rparr>])
   \<and> toLowerCase ''Readme.PDF'' = [] @ ''readme'' @ ''.pdf''
   \<and> \<lparr>path = ''a.png'', name = ''a.png'', type = TFile, size_f = Some 10\<rparr>
     \<notin> set (relevantFiles_filter
         [\<lparr>path = ''a.png'', name = ''a.png'', type = TFile, size_f = Some 10\<rparr>,
          \<lparr>path = ''docs/Readme.PDF'', name = ''Readme.PDF'', type = TFile, size_f = Some 20\<rparr>])"
proof -
  let ?r = "\<lparr>path = ''docs/Readme.PDF'', name = ''Readme.PDF'', type = TFile, size_f = Some 20\<rparr>"
  let ?p = "\<lparr>path = ''a.png'', name = ''a.png'', type = TFile, size_f = Some 10\<rparr>"
  have low: "toLowerCase ''Readme.PDF'' = [] @ ''readme'' @ ''.pdf''"
    by (simp add: toLowerCase_def toLowerChar_def)
  have "\<exists>k \<in> set [''readme'', ''config'', ''package'', ''makefile''].
          \<exists>a b. toLowerCase (name ?r) = a @ k @ b"
    using low by fastforce
  then have 1: "?r \<in> set (relevantFiles_filter [?p, ?r])"
    using relevance_filter_exact [of ?r "[?p, ?r]"] by simp
  have 2: "?p \<notin> set (relevantFiles_filter [?p, ?r])"
    by (simp add: path_eval)
  from 1 low 2 show ?thesis by blast
qed

section \<open>Properties of the file-analysis parser\<close>

lemma not_includes_Cons: "\<not> includes_str (c # cs) m \<Longrightarrow> \<not> includes_str cs m"
  by simp

lemma no_straddle:
  assumes m: "m \<noteq> []" and last: "last m \<notin> set (butlast m)"
    and pre: "\<not> includes_str (p # ps) m"
  shows "\<not> prefix m (p # ps @ m @ rest)"
proof
  assume pf: "prefix m (p # ps @ m @ rest)"
  from pre have np: "\<not> prefix m (p # ps)" by simp
  have "prefix m ((p # ps) @ (m @ rest))" using pf by simp
  then have "prefix m (p # ps) \<or> (\<exists>us. m = (p # ps) @ us \<and> prefix us (m @ rest))"
    by (simp only: prefix_append)
  with np obtain us where us: "m = (p # ps) @ us" and us_pf: "prefix us (m @ rest)" by blast
  have "length m = length (p # ps) + length us"
    using arg_cong [OF us, of length] by simp
  then have lt: "length us < length m" by simp
  have ne: "us \<noteq> []" using us np by auto
  from us_pf have "prefix us m \<or> (\<exists>vs. us = m @ vs \<and> prefix vs rest)"
    by (simp only: prefix_append)
  then have "prefix us m" using lt by auto
  then obtain ws where ws: "m = us @ ws" by (auto simp: prefix_def)
  have "ws \<noteq> []" using ws lt by auto
  then have "butlast m = us @ butlast ws"
    using arg_cong [OF ws, of butlast] by (simp add: butlast_append)
  then have sub: "set us \<subseteq> set (butlast m)" by simp
  have "last m = last us" using arg_cong [OF us, of last] ne by simp
  then have "last m \<in> set us" using ne by simp
  with sub last show False by blast
qed

lemma afterFirst_first:
  assumes "m \<noteq> []" and "last m \<notin> set (butlast m)" and "\<not> includes_str pre m"
  shows "afterFirst m (pre @ m @ rest) = Some rest"
  using assms(3)
proof (induction pre)
  case Nil
  show ?case using assms(1) by (cases m) auto
next
  case (Cons p ps)
  have "\<not> prefix m (p # ps @ m @ rest)"
    using no_straddle [OF assms(1,2) Cons.prems] .
  moreover have "\<not> includes_str ps m" using Cons.prems by simp
  ultimately show ?case using Cons.IH by simp
qed

lemma lazyUntil_first:
  assumes "m \<noteq> []" and "last m \<notin> set (butlast m)" and "\<not> includes_str pre m"
  shows "lazyUntil m (pre @ m @ rest) = pre"
  using assms(3)
proof (induction pre)
  case Nil
  show ?case using assms(1) by (cases m) auto
next
  case (Cons p ps)
  have "\<not> prefix m (p # ps @ m @ rest)"
    using no_straddle [OF assms(1,2) Cons.prems] .
  moreover have "\<not> includes_str ps m" using Cons.prems by simp
  ultimately show ?case using Cons.IH by simp
qed

lemma afterFirst_absent: "m \<noteq> [] \<Longrightarrow> \<not> includes_str s m \<Longrightarrow> afterFirst m s = None"
  by (induction s) auto

lemma lazyUntil_absent: "\<not> includes_str s m \<Longrightarrow> lazyUntil m s = s"
  by (induction s) auto

lemma dropWhile_isSpace_marker:
  assumes "stop \<noteq> []" and "\<not> isSpace (hd stop)"
  shows "dropWhile isSpace (mid @ stop @ post) = dropWhile isSpace mid @ stop @ post"
proof (cases "\<forall>x \<in> set mid. isSpace x")
  case True
  then have "dropWhile isSpace mid = []" by simp
  moreover have "dropWhile isSpace (stop @ post) = stop @ post"
    using assms by (cases stop) auto
  ultimately show ?thesis using True by (simp add: dropWhile_append)
next
  case False
  then show ?thesis by (auto simp: dropWhile_append)
qed

lemma not_includes_dropWhile:
  assumes "\<not> includes_str s m"
  shows "\<not> includes_str (dropWhile P s) m"
proof
  assume "includes_str (dropWhile P s) m"
  then obtain a b where "dropWhile P s = a @ m @ b" using includes_str_split by blast
  then have "s = (takeWhile P s @ a) @ m @ b"
    by (metis append.assoc takeWhile_dropWhile_id)
  then have "includes_str s m" using includes_str_append by metis
  with assms show False by contradiction
qed

lemma trim_dropWhile: "trim (dropWhile isSpace s) = trim s"
  by (simp add: trim_def)

lemma section_match_between:
  assumes "marker \<noteq> []" "last marker \<notin> set (butlast marker)"
    and "stop \<noteq> []" "last stop \<notin> set (butlast stop)" "\<not> isSpace (hd stop)"
    and "\<not> includes_str pre marker" "\<not> includes_str mid stop"
  shows "section_match marker stop (pre @ marker @ mid @ stop @ post)
           = Some (dropWhile isSpace mid)"
proof -
  have "afterFirst marker (pre @ marker @ (mid @ stop @ post)) = Some (mid @ stop @ post)"
    using afterFirst_first [OF assms(1,2,6)] .
  moreover have "lazyUntil stop (dropWhile isSpace mid @ stop @ post) = dropWhile isSpace mid"
    using lazyUntil_first [OF assms(3,4) not_includes_dropWhile [OF assms(7)]] .
  ultimately show ?thesis
    using dropWhile_isSpace_marker [OF assms(3,5)] by (simp add: section_match_def)
qed

lemma section_match_to_end:
  assumes "marker \<noteq> []" "last marker \<notin> set (butlast marker)"
    and "\<not> includes_str pre marker" "\<not> includes_str mid stop"
  shows "section_match marker stop (pre @ marker @ mid) = Some (dropWhile isSpace mid)"
proof -
  have "afterFirst marker (pre @ marker @ mid) = Some mid"
    using afterFirst_first [OF assms(1,2,3)] .
  moreover have "lazyUntil stop (dropWhile isSpace mid) = dropWhile isSpace mid"
    using lazyUntil_absent [OF not_includes_dropWhile [OF assms(4)]] .
  ultimately show ?thesis by (simp add: section_match_def)
qed

lemma section_match_absent:
  "marker \<noteq> [] \<Longrightarrow> \<not> includes_str text marker \<Longrightarrow> section_match marker stop text = None"
  by (simp add: section_match_def afterFirst_absent)

lemma toLowerChar_eval:
  "toLowerChar c =
     (if c \<in> set ''ABCDEFGHIJKLMNOPQRSTUVWXYZ''
      then (case map_of (zip ''ABCDEFGHIJKLMNOPQRSTUVWXYZ'' ''abcdefghijklmnopqrstuvwxyz'') c of
              Some d \<Rightarrow> d | None \<Rightarrow> c)
      else c)"
  by (auto simp: toLowerChar_def)

lemma isSpace_not_letter: "isSpace x \<Longrightarrow> toLowerChar x = x"
proof -
  assume "isSpace x"
  then have "x \<notin> set ''ABCDEFGHIJKLMNOPQRSTUVWXYZ''"
    by (auto simp: isSpace_def)
  then show ?thesis by (simp only: toLowerChar_eval if_False)
qed

lemma toLowerCase_append: "toLowerCase (a @ b) = toLowerCase a @ toLowerCase b"
  by (simp add: toLowerCase_def)

lemma length_toLowerCase: "length (toLowerCase s) = length s"
  by (simp add: toLowerCase_def)

lemma prefixCI_eq: "prefixCI p s = prefix p (toLowerCase s)"
  by (induction p s rule: prefixCI.induct) (auto simp: toLowerCase_def)

lemma prefix_take: "prefix w t \<Longrightarrow> length w = n \<Longrightarrow> take n t = w"
  by (auto simp: prefix_def)

lemma levelAt_word:
  assumes "toLowerCase lvl \<in> {''high'', ''medium'', ''low''}"
  shows "levelAt (lvl @ post) = Some lvl"
proof -
  have len: "length (toLowerCase lvl) = length lvl" by (rule length_toLowerCase)
  have pf: "prefixCI w (lvl @ post) = prefix w (toLowerCase lvl @ toLowerCase post)" for w
    by (simp only: prefixCI_eq toLowerCase_append)
  from assms consider (h) "toLowerCase lvl = ''high''" | (m) "toLowerCase lvl = ''medium''"
    | (l) "toLowerCase lvl = ''low''" by auto
  then show ?thesis
  proof cases
    case h
    then have "length lvl = 4" using len by simp
    moreover have "prefixCI ''high'' (lvl @ post)" unfolding pf h by simp
    ultimately show ?thesis by (simp add: levelAt_def)
  next
    case m
    then have "length lvl = 6" using len by simp
    moreover have "\<not> prefixCI ''high'' (lvl @ post)" unfolding pf m by simp
    moreover have "prefixCI ''medium'' (lvl @ post)" unfolding pf m by simp
    ultimately show ?thesis by (simp add: levelAt_def)
  next
    case l
    then have "length lvl = 3" using len by simp
    moreover have "\<not> prefixCI ''high'' (lvl @ post)" unfolding pf l by simp
    moreover have "\<not> prefixCI ''medium'' (lvl @ post)" unfolding pf l by simp
    moreover have "prefixCI ''low'' (lvl @ post)" unfolding pf l by simp
    ultimately show ?thesis by (simp add: levelAt_def)
  qed
qed

lemma level_not_space:
  assumes "toLowerCase lvl \<in> {''high'', ''medium'', ''low''}"
  shows "lvl \<noteq> [] \<and> \<not> isSpace (hd lvl)"
proof (cases lvl)
  case Nil
  with assms show ?thesis by (simp add: toLowerCase_def)
next
  case (Cons x xs)
  with assms have "toLowerChar x \<in> {CHR ''h'', CHR ''m'', CHR ''l''}"
    by (auto simp: toLowerCase_def)
  then have "\<not> isSpace x"
    using isSpace_not_letter [of x] by (auto simp: isSpace_def)
  with Cons show ?thesis by simp
qed

lemma confidenceAt_here:
  assumes c: "toLowerCase c = ''confidence:''" and ws: "\<forall>x \<in> set ws. isSpace x"
    and lvl: "toLowerCase lvl \<in> {''high'', ''medium'', ''low''}"
  shows "confidenceAt (c @ ws @ lvl @ post) = Some lvl"
proof -
  have len: "length c = 11" using c length_toLowerCase [of c] by simp
  have "dropWhile isSpace (ws @ lvl @ post) = lvl @ post"
    using ws level_not_space [OF lvl] by (cases lvl) (auto simp: dropWhile_append)
  then show ?thesis
    using c len levelAt_word [OF lvl] by (simp add: confidenceAt_def prefixCI_eq toLowerCase_append)
qed

lemma confidence_match_first:
  assumes c: "toLowerCase c = ''confidence:''" and ws: "\<forall>x \<in> set ws. isSpace x"
    and lvl: "toLowerCase lvl \<in> {''high'', ''medium'', ''low''}"
    and pre: "\<not> includes_str (toLowerCase pre) ''confidence:''"
  shows "confidence_match (pre @ c @ ws @ lvl @ post) = Some lvl"
  using pre
proof (induction pre)
  case Nil
  have "c \<noteq> []" using c by (auto simp: toLowerCase_def)
  then obtain c0 cs where "c = c0 # cs" by (cases c) auto
  then show ?case using confidenceAt_here [OF c ws lvl, of post] by simp
next
  case (Cons p ps)
  have low: "toLowerCase ((p # ps) @ c @ ws @ lvl @ post)
        = toLowerChar p # toLowerCase ps @ ''confidence:'' @ toLowerCase (ws @ lvl @ post)"
    using c by (simp add: toLowerCase_def)
  have "\<not> includes_str (toLowerChar p # toLowerCase ps) ''confidence:''"
    using Cons.prems by (simp add: toLowerCase_def)
  then have "\<not> prefix ''confidence:'' (toLowerChar p # toLowerCase ps @ ''confidence:'' @ toLowerCase (ws @ lvl @ post))"
    by (intro no_straddle) simp_all
  then have "confidenceAt ((p # ps) @ c @ ws @ lvl @ post) = None"
    unfolding confidenceAt_def prefixCI_eq low [symmetric] by simp
  moreover have "\<not> includes_str (toLowerCase ps) ''confidence:''"
    using Cons.prems by (simp add: toLowerCase_def)
  ultimately show ?case using Cons.IH by simp
qed

lemma confidence_match_absent:
  "\<not> includes_str (toLowerCase s) ''confidence:'' \<Longrightarrow> confidence_match s = None"
proof (induction s)
  case Nil
  then show ?case by simp
next
  case (Cons x xs)
  then have "\<not> prefix ''confidence:'' (toLowerCase (x # xs))"
    and "\<not> includes_str (toLowerCase xs) ''confidence:''"
    by (simp_all add: toLowerCase_def)
  then show ?case using Cons.IH by (simp add: confidenceAt_def prefixCI_eq)
qed

lemma levelAt_range: "levelAt s = Some g \<Longrightarrow> toLowerCase g \<in> {''high'', ''medium'', ''low''}"
proof -
  have tk: "toLowerCase (take n s) = take n (toLowerCase s)" for n
    by (simp add: toLowerCase_def take_map)
  assume a: "levelAt s = Some g"
  show ?thesis
  proof (cases "prefixCI ''high'' s")
    case True
    then have "g = take 4 s" using a by (simp add: levelAt_def)
    moreover have "take 4 (toLowerCase s) = ''high''"
      using True by (intro prefix_take) (simp_all add: prefixCI_eq)
    ultimately show ?thesis by (simp add: tk)
  next
    case nh: False
    show ?thesis
    proof (cases "prefixCI ''medium'' s")
      case True
      then have "g = take 6 s" using a nh by (simp add: levelAt_def)
      moreover have "take 6 (toLowerCase s) = ''medium''"
        using True by (intro prefix_take) (simp_all add: prefixCI_eq)
      ultimately show ?thesis by (simp add: tk)
    next
      case nm: False
      have l: "prefixCI ''low'' s" using a nh nm by (simp add: levelAt_def split: if_splits)
      then have "g = take 3 s" using a nh nm by (simp add: levelAt_def)
      moreover have "take 3 (toLowerCase s) = ''low''"
        using l by (intro prefix_take) (simp_all add: prefixCI_eq)
      ultimately show ?thesis by (simp add: tk)
    qed
  qed
qed

lemma confidence_match_range:
  "confidence_match s = Some g \<Longrightarrow> toLowerCase g \<in> {''high'', ''medium'', ''low''}"
proof (induction s)
  case Nil
  then show ?case by simp
next
  case (Cons x xs)
  show ?case
  proof (cases "confidenceAt (x # xs)")
    case None
    then show ?thesis using Cons by simp
  next
    case (Some h)
    then have "h = g" using Cons.prems by simp
    with Some have "levelAt (dropWhile isSpace (drop (length ''confidence:'') (x # xs))) = Some g"
      by (auto simp: confidenceAt_def prefixCI_eq split: if_splits)
    then show ?thesis by (rule levelAt_range)
  qed
qed

lemmas parse_eval = parseFileAnalysis_def section_match_def confidenceAt_def levelAt_def
  keepLine_def trim_def isSpace_def startsWith_def toLowerCase_def toLowerChar_def Let_def

subsection \<open>C8: parsing of the file analysis\<close>

text \<open>
  Claim C8. \<open>parseFileAnalysis\<close> is a total function: it returns a record for every
  text, its confidence is one of \<open>high\<close>, \<open>medium\<close>, \<open>low\<close> and its list has at most
  15 entries. Without \<^verbatim>\<open>REASONING:\<close> the reasoning is \<open>Analysis completed\<close>; with it,
  the reasoning is the trimmed text between the first \<^verbatim>\<open>REASONING:\<close> and the next
  \<^verbatim>\<open>RELEVANT_FILES:\<close>. Without a confidence marker the confidence is \<open>medium\<close>;
  after the first marker, white space and one of the three words, it is that word in
  lower case. Without \<^verbatim>\<open>RELEVANT_FILES:\<close> the list is empty; with it, the list is the
  section up to \<^verbatim>\<open>CONFIDENCE:\<close>, trimmed, split at line feeds, each line trimmed, the
  empty lines and the lines starting with a bracket or with two slashes removed, cut to
  the first 15. A reply that lists 20 files yields the first 15, in their order.
\<close>
theorem parseFileAnalysis_fields:
  "confidence (parseFileAnalysis r) \<in> {''high'', ''medium'', ''low''}
   \<and> length (relevantFiles (parseFileAnalysis r)) \<le> 15
   \<and> (\<not> includes_str r ''REASONING:'' \<longrightarrow>
        reasoning (parseFileAnalysis r) = ''Analysis completed'')
   \<and> (\<not> includes_str pre ''REASONING:'' \<and> \<not> includes_str mid ''RELEVANT_FILES:'' \<longrightarrow>
        reasoning (parseFileAnalysis (pre @ ''REASONING:'' @ mid @ ''RELEVANT_FILES:'' @ post))
          = trim mid)
   \<and> (\<not> includes_str (toLowerCase r) ''confidence:'' \<longrightarrow>
        confidence (parseFileAnalysis r) = ''medium'')
   \<and> (\<not> includes_str (toLowerCase pre) ''confidence:'' \<and> (\<forall>x \<in> set ws. isSpace x)
        \<and> toLowerCase lvl \<in> {''high'', ''medium'', ''low''} \<longrightarrow>
        confidence (parseFileAnalysis (pre @ ''CONFIDENCE:'' @ ws @ lvl @ post))
          = toLowerCase lvl)
   \<and> (\<not> includes_str r ''RELEVANT_FILES:'' \<longrightarrow> relevantFiles (parseFileAnalysis r) = [])
   \<and> (\<not> includes_str pre ''RELEVANT_FILES:'' \<and> \<not> includes_str mid ''CONFIDENCE:'' \<longrightarrow>
        relevantFiles (parseFileAnalysis (pre @ ''RELEVANT_FILES:'' @ mid @ ''CONFIDENCE:'' @ post))
          = take 15 (filter (\<lambda>line. line \<noteq> [] \<and> \<not> prefix ''['' line \<and> \<not> prefix ''//'' line)
                       (map trim (split_on (CHR 0x0A) (trim mid)))))
   \<and> relevantFiles (parseFileAnalysis
        (''REASONING:\<newline>Every module is needed.\<newline>\<newline>''
         @ ''RELEVANT_FILES:''
         @ (''\<newline>f01.ts\<newline>f02.ts\<newline>f03.ts\<newline>f04.ts\<newline>f05.ts''
            @ ''\<newline>f06.ts\<newline>f07.ts\<newline>f08.ts\<newline>f09.ts\<newline>f10.ts''
            @ ''\<newline>f11.ts\<newline>f12.ts\<newline>f13.ts\<newline>f14.ts\<newline>f15.ts''
            @ ''\<newline>f16.ts\<newline>f17.ts\<newline>f18.ts\<newline>f19.ts\<newline>f20.ts''
            @ ''\<newline>\<newline>'')
         @ ''CONFIDENCE:''
         @ ''\<newline>high''))
       = [''f01.ts'', ''f02.ts'', ''f03.ts'', ''f04.ts'', ''f05.ts'',
          ''f06.ts'', ''f07.ts'', ''f08.ts'', ''f09.ts'', ''f10.ts'',
          ''f11.ts'', ''f12.ts'', ''f13.ts'', ''f14.ts'', ''f15.ts'']"
proof -
  have 1: "confidence (parseFileAnalysis r) \<in> {''high'', ''medium'', ''low''}"
  proof (cases "confidence_match r")
    case None
    then show ?thesis by (simp add: parseFileAnalysis_def Let_def)
  next
    case (Some g)
    then show ?thesis
      using confidence_match_range [OF Some] by (simp add: parseFileAnalysis_def Let_def)
  qed
  have 2: "length (relevantFiles (parseFileAnalysis r)) \<le> 15"
    by (simp add: parseFileAnalysis_def Let_def)
  have 3: "\<not> includes_str r ''REASONING:'' \<longrightarrow>
        reasoning (parseFileAnalysis r) = ''Analysis completed''"
    by (simp add: parseFileAnalysis_def Let_def section_match_absent)
  have 4: "\<not> includes_str pre ''REASONING:'' \<and> \<not> includes_str mid ''RELEVANT_FILES:'' \<longrightarrow>
        reasoning (parseFileAnalysis (pre @ ''REASONING:'' @ mid @ ''RELEVANT_FILES:'' @ post))
          = trim mid"
  proof
    assume a: "\<not> includes_str pre ''REASONING:'' \<and> \<not> includes_str mid ''RELEVANT_FILES:''"
    have "section_match ''REASONING:'' ''RELEVANT_FILES:''
            (pre @ ''REASONING:'' @ mid @ ''RELEVANT_FILES:'' @ post)
          = Some (dropWhile isSpace mid)"
      using a by (intro section_match_between) (simp_all add: isSpace_def)
    then show "reasoning (parseFileAnalysis (pre @ ''REASONING:'' @ mid @ ''RELEVANT_FILES:'' @ post))
          = trim mid"
      by (simp add: parseFileAnalysis_def Let_def trim_dropWhile)
  qed
  have 5: "\<not> includes_str (toLowerCase r) ''confidence:'' \<longrightarrow>
        confidence (parseFileAnalysis r) = ''medium''"
    by (simp add: parseFileAnalysis_def Let_def confidence_match_absent)
  have 6: "\<not> includes_str (toLowerCase pre) ''confidence:'' \<and> (\<forall>x \<in> set ws. isSpace x)
        \<and> toLowerCase lvl \<in> {''high'', ''medium'', ''low''} \<longrightarrow>
        confidence (parseFileAnalysis (pre @ ''CONFIDENCE:'' @ ws @ lvl @ post))
          = toLowerCase lvl"
  proof
    assume a: "\<not> includes_str (toLowerCase pre) ''confidence:'' \<and> (\<forall>x \<in> set ws. isSpace x)
        \<and> toLowerCase lvl \<in> {''high'', ''medium'', ''low''}"
    have c: "toLowerCase ''CONFIDENCE:'' = ''confidence:''"
      by (simp add: toLowerCase_def toLowerChar_def)
    have "confidence_match (pre @ ''CONFIDENCE:'' @ ws @ lvl @ post) = Some lvl"
      using a by (intro confidence_match_first [OF c]) blast+
    then show "confidence (parseFileAnalysis (pre @ ''CONFIDENCE:'' @ ws @ lvl @ post))
          = toLowerCase lvl"
      by (simp add: parseFileAnalysis_def Let_def)
  qed
  have 7: "\<not> includes_str r ''RELEVANT_FILES:'' \<longrightarrow> relevantFiles (parseFileAnalysis r) = []"
    by (simp add: parseFileAnalysis_def Let_def section_match_absent trim_def keepLine_def)
  have 8: "\<not> includes_str pre ''RELEVANT_FILES:'' \<and> \<not> includes_str mid ''CONFIDENCE:'' \<longrightarrow>
        relevantFiles (parseFileAnalysis (pre @ ''RELEVANT_FILES:'' @ mid @ ''CONFIDENCE:'' @ post))
          = take 15 (filter (\<lambda>line. line \<noteq> [] \<and> \<not> prefix ''['' line \<and> \<not> prefix ''//'' line)
                       (map trim (split_on (CHR 0x0A) (trim mid))))" for pre mid post
  proof
    assume a: "\<not> includes_str pre ''RELEVANT_FILES:'' \<and> \<not> includes_str mid ''CONFIDENCE:''"
    have "section_match ''RELEVANT_FILES:'' ''CONFIDENCE:''
            (pre @ ''RELEVANT_FILES:'' @ mid @ ''CONFIDENCE:'' @ post)
          = Some (dropWhile isSpace mid)"
      using a by (intro section_match_between) (simp_all add: isSpace_def)
    moreover have "keepLine = (\<lambda>line. line \<noteq> [] \<and> \<not> prefix ''['' line \<and> \<not> prefix ''//'' line)"
      by (rule ext) (simp add: keepLine_def startsWith_def)
    ultimately show "relevantFiles (parseFileAnalysis (pre @ ''RELEVANT_FILES:'' @ mid @ ''CONFIDENCE:'' @ post))
          = take 15 (filter (\<lambda>line. line \<noteq> [] \<and> \<not> prefix ''['' line \<and> \<not> prefix ''//'' line)
                       (map trim (split_on (CHR 0x0A) (trim mid))))"
      by (simp add: parseFileAnalysis_def Let_def trim_dropWhile)
  qed
  have 9: "relevantFiles (parseFileAnalysis
        (''REASONING:\<newline>Every module is needed.\<newline>\<newline>''
         @ ''RELEVANT_FILES:''
         @ (''\<newline>f01.ts\<newline>f02.ts\<newline>f03.ts\<newline>f04.ts\<newline>f05.ts''
            @ ''\<newline>f06.ts\<newline>f07.ts\<newline>f08.ts\<newline>f09.ts\<newline>f10.ts''
            @ ''\<newline>f11.ts\<newline>f12.ts\<newline>f13.ts\<newline>f14.ts\<newline>f15.ts''
            @ ''\<newline>f16.ts\<newline>f17.ts\<newline>f18.ts\<newline>f19.ts\<newline>f20.ts''
            @ ''\<newline>\<newline>'')
         @ ''CONFIDENCE:''
         @ ''\<newline>high''))
       = [''f01.ts'', ''f02.ts'', ''f03.ts'', ''f04.ts'', ''f05.ts'',
          ''f06.ts'', ''f07.ts'', ''f08.ts'', ''f09.ts'', ''f10.ts'',
          ''f11.ts'', ''f12.ts'', ''f13.ts'', ''f14.ts'', ''f15.ts'']"
  proof -
    let ?pre = "''REASONING:\<newline>Every module is needed.\<newline>\<newline>''"
    let ?mid = "''\<newline>f01.ts\<newline>f02.ts\<newline>f03.ts\<newline>f04.ts\<newline>f05.ts''
            @ ''\<newline>f06.ts\<newline>f07.ts\<newline>f08.ts\<newline>f09.ts\<newline>f10.ts''
            @ ''\<newline>f11.ts\<newline>f12.ts\<newline>f13.ts\<newline>f14.ts\<newline>f15.ts''
            @ ''\<newline>f16.ts\<newline>f17.ts\<newline>f18.ts\<newline>f19.ts\<newline>f20.ts''
            @ ''\<newline>\<newline>''"
    have h1: "\<not> includes_str ?pre ''RELEVANT_FILES:''" by simp
    have h2: "\<not> includes_str ?mid ''CONFIDENCE:''" by simp
    have t: "trim ?mid
        = ''f01.ts\<newline>f02.ts\<newline>f03.ts\<newline>f04.ts\<newline>f05.ts''
            @ ''\<newline>f06.ts\<newline>f07.ts\<newline>f08.ts\<newline>f09.ts\<newline>f10.ts''
            @ ''\<newline>f11.ts\<newline>f12.ts\<newline>f13.ts\<newline>f14.ts\<newline>f15.ts''
            @ ''\<newline>f16.ts\<newline>f17.ts\<newline>f18.ts\<newline>f19.ts\<newline>f20.ts''"
      by (simp add: trim_def isSpace_def)
    have sp: "map trim (split_on (CHR 0x0A) (trim ?mid))
        = [''f01.ts'', ''f02.ts'', ''f03.ts'', ''f04.ts'', ''f05.ts'',
           ''f06.ts'', ''f07.ts'', ''f08.ts'', ''f09.ts'', ''f10.ts'',
           ''f11.ts'', ''f12.ts'', ''f13.ts'', ''f14.ts'', ''f15.ts'',
           ''f16.ts'', ''f17.ts'', ''f18.ts'', ''f19.ts'', ''f20.ts'']"
      unfolding t by (simp add: trim_def isSpace_def)
    from 8 [of ?pre ?mid "''\<newline>high''"] h1 h2
    have "relevantFiles (parseFileAnalysis (?pre @ ''RELEVANT_FILES:'' @ ?mid @ ''CONFIDENCE:'' @ ''\<newline>high''))
          = take 15 (filter (\<lambda>line. line \<noteq> [] \<and> \<not> prefix ''['' line \<and> \<not> prefix ''//'' line)
                       (map trim (split_on (CHR 0x0A) (trim ?mid))))"
      by blast
    then show ?thesis unfolding sp by simp
  qed
  from 1 2 3 4 5 6 7 8 9 show ?thesis by blast
qed

theorem parseFileAnalysis_fields_witness:
  "\<not> includes_str ''Plan. '' ''REASONING:''
   \<and> \<not> includes_str '' core first '' ''RELEVANT_FILES:''
   \<and> reasoning (parseFileAnalysis
         (''Plan. '' @ ''REASONING:'' @ '' core first '' @ ''RELEVANT_FILES:'' @ '' a.ts''))
       = ''core first''
   \<and> \<not> includes_str (toLowerCase ''Sure. '') ''confidence:''
   \<and> (\<forall>x \<in> set '' ''. isSpace x)
   \<and> toLowerCase ''High'' \<in> {''high'', ''medium'', ''low''}
   \<and> confidence (parseFileAnalysis (''Sure. '' @ ''CONFIDENCE:'' @ '' '' @ ''High'' @ ''!''))
       = ''high''
   \<and> \<not> includes_str ''hello'' ''REASONING:''
   \<and> reasoning (parseFileAnalysis ''hello'') = ''Analysis completed''"
proof -
  have a1: "\<not> includes_str ''Plan. '' ''REASONING:''" by simp
  have a2: "\<not> includes_str '' core first '' ''RELEVANT_FILES:''" by simp
  have b1: "\<not> includes_str (toLowerCase ''Sure. '') ''confidence:''"
    by (simp add: toLowerCase_def toLowerChar_eval)
  have b2: "\<forall>x \<in> set '' ''. isSpace x" by (simp add: isSpace_def)
  have low: "toLowerCase ''High'' = ''high''" by (simp add: toLowerCase_def toLowerChar_eval)
  have b3: "toLowerCase ''High'' \<in> {''high'', ''medium'', ''low''}" unfolding low by simp
  have c1: "\<not> includes_str ''hello'' ''REASONING:''" by simp
  have tr: "trim '' core first '' = ''core first''" by (simp add: trim_def isSpace_def)
  have r1: "reasoning (parseFileAnalysis
         (''Plan. '' @ ''REASONING:'' @ '' core first '' @ ''RELEVANT_FILES:'' @ '' a.ts''))
       = ''core first''"
    using parseFileAnalysis_fields [where pre = "''Plan. ''" and mid = "'' core first ''"
        and post = "'' a.ts''"] a1 a2 tr by simp
  have r2: "confidence (parseFileAnalysis (''Sure. '' @ ''CONFIDENCE:'' @ '' '' @ ''High'' @ ''!''))
       = ''high''"
    using parseFileAnalysis_fields [where pre = "''Sure. ''" and ws = "'' ''" and lvl = "''High''"
        and post = "''!''"] b1 b2 b3 low by simp
  have r3: "reasoning (parseFileAnalysis ''hello'') = ''Analysis completed''"
    using parseFileAnalysis_fields [where r = "''hello''"] c1 by simp
  from a1 a2 r1 b1 b2 b3 r2 c1 r3 show ?thesis by blast
qed

end
